theory Spec2Isabelle
  imports Main
begin

section \<open>Python string primitives used by \<open>pdf_to_st.py\<close>\<close>

text \<open>
  A Python \<open>str\<close> is a sequence of code points. The model is \<^typ>\<open>string\<close>, a list of
  \<^typ>\<open>char\<close>, where a \<^typ>\<open>char\<close> stands for the code point of the same number: the
  texts covered are those over the code points 0 to 255. The tables below (white space,
  line boundaries, case mappings) are Python's tables restricted to that range.
\<close>

definition is_space :: "char \<Rightarrow> bool" where
  \<comment> \<open>\<open>str.isspace\<close> on one code point below 256.\<close>
  "is_space c = (c \<in> set [CHR 0x09, CHR 0x0A, CHR 0x0B, CHR 0x0C, CHR 0x0D,
                           CHR 0x1C, CHR 0x1D, CHR 0x1E, CHR 0x1F, CHR 0x20,
                           CHR 0x85, CHR 0xA0])"

definition is_linebreak :: "char \<Rightarrow> bool" where
  \<comment> \<open>the line boundaries of \<open>str.splitlines\<close> below 256.\<close>
  "is_linebreak c = (c \<in> set [CHR 0x0A, CHR 0x0B, CHR 0x0C, CHR 0x0D,
                               CHR 0x1C, CHR 0x1D, CHR 0x1E, CHR 0x85])"

definition strip :: "string \<Rightarrow> string" where
  \<comment> \<open>\<open>s.strip()\<close>\<close>
  "strip s = rev (dropWhile is_space (rev (dropWhile is_space s)))"

fun splitlines_from :: "string \<Rightarrow> string \<Rightarrow> string list" where
  \<comment> \<open>the scan of \<open>str.splitlines()\<close>; the first argument is the line read so far.
      A carriage return directly followed by a line feed is one boundary; a last line
      is emitted only when it has at least one character.\<close>
  "splitlines_from cur [] = (if cur = [] then [] else [cur])"
| "splitlines_from cur (c # cs) =
     (if c = CHR 0x0D then
        (case cs of
           [] \<Rightarrow> [cur]
         | d # ds \<Rightarrow> if d = CHR 0x0A then cur # splitlines_from [] ds
                     else cur # splitlines_from [] (d # ds))
      else if is_linebreak c then cur # splitlines_from [] cs
      else splitlines_from (cur @ [c]) cs)"

definition splitlines :: "string \<Rightarrow> string list" where
  "splitlines text = splitlines_from [] text"

definition split_maxsplit1 :: "string \<Rightarrow> string list" where
  \<comment> \<open>\<open>s.split(maxsplit=1)\<close>: leading white space is skipped, the first token is the
      run of non-space characters, the white space after it is skipped, and what is left
      (if anything) is the second part, with its trailing white space kept.\<close>
  "split_maxsplit1 s =
     (let s1 = dropWhile is_space s in
      if s1 = [] then []
      else
        let tok = takeWhile (\<lambda>c. \<not> is_space c) s1;
            rest = dropWhile is_space (dropWhile (\<lambda>c. \<not> is_space c) s1)
        in if rest = [] then [tok] else [tok, rest])"

definition lower_char :: "char \<Rightarrow> char" where
  \<comment> \<open>\<open>str.lower\<close> on one code point below 256: A..Z and the capitals U+00C0..U+00DE
      (without the multiplication sign U+00D7) move up by 32.\<close>
  "lower_char c =
     (let n = (of_char c :: nat) in
      if (65 \<le> n \<and> n \<le> 90) \<or> (192 \<le> n \<and> n \<le> 222 \<and> n \<noteq> 215)
      then char_of (n + 32) else c)"

definition lower :: "string \<Rightarrow> string" where
  "lower s = map lower_char s"

definition upper_char :: "char \<Rightarrow> string" where
  \<comment> \<open>\<open>str.upper\<close> on one code point below 256: a..z and U+00E0..U+00FE (without the
      division sign U+00F7) move down by 32, and U+00DF becomes the two letters SS.
      The capitals of U+00B5 and U+00FF are U+039C and U+0178, beyond the range of
      \<^typ>\<open>char\<close>: the model keeps these two characters as they are. Neither they nor
      their capitals are ASCII, and the program only compares an upper-cased opcode
      with ASCII mnemonics.\<close>
  "upper_char c =
     (let n = (of_char c :: nat) in
      if (97 \<le> n \<and> n \<le> 122) \<or> (224 \<le> n \<and> n \<le> 254 \<and> n \<noteq> 247)
      then [char_of (n - 32)]
      else if n = 223 then ''SS''
      else [c])"

definition upper :: "string \<Rightarrow> string" where
  "upper s = concat (map upper_char s)"

definition startswith :: "string \<Rightarrow> string \<Rightarrow> bool" where
  \<comment> \<open>\<open>s.startswith(p)\<close>\<close>
  "startswith s p = (take (length p) s = p)"

fun join :: "string \<Rightarrow> string list \<Rightarrow> string" where
  \<comment> \<open>\<open>sep.join(xs)\<close>\<close>
  "join sep [] = []"
| "join sep [x] = x"
| "join sep (x # y # ys) = x @ sep @ join sep (y # ys)"

definition digit_char :: "nat \<Rightarrow> char" where
  "digit_char d = char_of (48 + d)"

fun str_nat :: "nat \<Rightarrow> string" where
  "str_nat n = (if n < 10 then [digit_char n] else str_nat (n div 10) @ [digit_char (n mod 10)])"

declare str_nat.simps [simp del]

definition str_int :: "int \<Rightarrow> string" where
  \<comment> \<open>the decimal text an f-string gives for an \<open>int\<close>\<close>
  "str_int i = (if i < 0 then CHR ''-'' # str_nat (nat (- i)) else str_nat (nat i))"

section \<open>The translation engine\<close>

subsection \<open>\<open>split_rungs\<close>\<close>

definition is_boundary :: "string \<Rightarrow> bool" where
  \<comment> \<open>\<open>line.lower().startswith(("rung", "network"))\<close>\<close>
  "is_boundary line = (startswith (lower line) ''rung'' \<or> startswith (lower line) ''network'')"

fun split_rungs_loop :: "string list \<Rightarrow> string list list \<Rightarrow> string list \<Rightarrow> string list list" where
  \<comment> \<open>the \<open>for raw_line in text.splitlines()\<close> loop with its two variables \<open>rungs\<close> and
      \<open>current\<close>, and the flush after the loop.\<close>
  "split_rungs_loop [] rungs current = (if current \<noteq> [] then rungs @ [current] else rungs)"
| "split_rungs_loop (raw_line # rest) rungs current =
     (let line = strip raw_line in
      if line = [] then
        (if current \<noteq> [] then split_rungs_loop rest (rungs @ [current]) []
         else split_rungs_loop rest rungs current)
      else if is_boundary line then
        (if current \<noteq> [] then split_rungs_loop rest (rungs @ [current]) []
         else split_rungs_loop rest rungs current)
      else split_rungs_loop rest rungs (current @ [line]))"

definition split_rungs :: "string \<Rightarrow> string list list" where
  "split_rungs text = split_rungs_loop (splitlines text) [] []"

subsection \<open>\<open>_parse_instruction\<close>\<close>

definition parse_instruction :: "string \<Rightarrow> string \<times> string" where
  "parse_instruction instr =
     (case split_maxsplit1 instr of
        [] \<Rightarrow> ('''', '''')
      | p0 # ps \<Rightarrow> (upper p0, (case ps of [] \<Rightarrow> '''' | p1 # _ \<Rightarrow> strip p1)))"

subsection \<open>\<open>rung_to_expression\<close>\<close>

type_synonym coil_assignment = "(string \<times> string) option"

fun apply_instruction :: "string list \<times> coil_assignment \<Rightarrow> string \<times> string
                            \<Rightarrow> string list \<times> coil_assignment" where
  \<comment> \<open>the \<open>if\<close>/\<open>elif\<close> chain of the loop body, on the pair
      \<open>(expr_parts, coil_assignment)\<close> and the parsed \<open>(op, operand)\<close>\<close>
  "apply_instruction (expr_parts, coil_assignment) (op, operand) =
     (if op \<in> set [''LD'', ''LDP'', ''LDN''] then
        (if op = ''LDN'' then ([''NOT '' @ operand], coil_assignment)
         else ([operand], coil_assignment))
      else if op \<in> set [''AND'', ''ANDP'', ''ANDN''] then
        (if op = ''ANDN'' then (expr_parts @ [''AND NOT '' @ operand], coil_assignment)
         else (expr_parts @ [''AND '' @ operand], coil_assignment))
      else if op \<in> set [''OR'', ''ORP'', ''ORN''] then
        (if op = ''ORN'' then (expr_parts @ [''OR NOT '' @ operand], coil_assignment)
         else (expr_parts @ [''OR '' @ operand], coil_assignment))
      else if op \<in> set [''OUT'', ''SET'', ''RST'', ''OUTNOT''] then
        (expr_parts, Some (op, operand))
      else (expr_parts, coil_assignment))"

definition expr_step :: "string list \<times> coil_assignment \<Rightarrow> string \<Rightarrow> string list \<times> coil_assignment" where
  \<comment> \<open>one turn of \<open>for instr in rung\<close>\<close>
  "expr_step st instr = apply_instruction st (parse_instruction instr)"

definition rung_to_expression :: "string list \<Rightarrow> string \<times> coil_assignment" where
  "rung_to_expression rung =
     (let (expr_parts, coil_assignment) = foldl expr_step ([], None) rung in
      (join '' '' expr_parts, coil_assignment))"

subsection \<open>\<open>rung_to_st\<close>\<close>

definition coil_statement :: "string \<Rightarrow> string \<Rightarrow> string \<Rightarrow> string" where
  \<comment> \<open>the statement line that \<open>rung_to_st\<close> appends after the header, by opcode\<close>
  "coil_statement opcode coil expr =
     (if opcode = ''OUT'' then coil @ '' := '' @ expr @ '';''
      else if opcode = ''OUTNOT'' then coil @ '' := NOT ('' @ expr @ '');''
      else if opcode = ''SET'' then ''IF '' @ expr @ '' THEN '' @ coil @ '' := TRUE; END_IF;''
      else if opcode = ''RST'' then ''IF '' @ expr @ '' THEN '' @ coil @ '' := FALSE; END_IF;''
      else ''(* Unsupported coil opcode '' @ opcode @ '' *)'')"

definition rung_to_st :: "string list \<Rightarrow> int \<Rightarrow> string" where
  "rung_to_st rung index =
     (case rung_to_expression rung of
        (expr, None) \<Rightarrow> ''(* Rung '' @ str_int index @ '': no coil found *)''
      | (expr, Some (opcode, coil)) \<Rightarrow>
          join [CHR 0x0A] [''(* Rung '' @ str_int index @ '' *)'', coil_statement opcode coil expr])"

subsection \<open>\<open>convert_text_to_st\<close>\<close>

fun convert_loop :: "string list list \<Rightarrow> int \<Rightarrow> string list \<Rightarrow> string list" where
  \<comment> \<open>\<open>for i, rung in enumerate(rungs, 1)\<close> with the list \<open>st_lines\<close>\<close>
  "convert_loop [] i st_lines = st_lines"
| "convert_loop (rung # rungs) i st_lines =
     convert_loop rungs (i + 1) (st_lines @ [rung_to_st rung i, ''''])"

definition convert_text_to_st :: "string \<Rightarrow> string" where
  "convert_text_to_st text = join [CHR 0x0A] (convert_loop (split_rungs text) 1 [])"


section \<open>Vocabulary of the instruction list\<close>

definition coil_opcodes :: "string list" where
  \<comment> \<open>the set of the last \<open>elif\<close> of the loop in \<open>rung_to_expression\<close>\<close>
  "coil_opcodes = [''OUT'', ''SET'', ''RST'', ''OUTNOT'']"

definition logic_opcodes :: "string list" where
  \<comment> \<open>the sets of its first three branches\<close>
  "logic_opcodes = [''LD'', ''LDP'', ''LDN'', ''AND'', ''ANDP'', ''ANDN'', ''OR'', ''ORP'', ''ORN'']"

definition opcode_of :: "string \<Rightarrow> string" where
  \<comment> \<open>the upper-cased opcode of an instruction line\<close>
  "opcode_of instr = fst (parse_instruction instr)"

definition is_coil_instr :: "string \<Rightarrow> bool" where
  "is_coil_instr instr = (opcode_of instr \<in> set coil_opcodes)"

definition is_logic_instr :: "string \<Rightarrow> bool" where
  "is_logic_instr instr = (opcode_of instr \<in> set logic_opcodes)"

definition is_recognized :: "string \<Rightarrow> bool" where
  "is_recognized instr = (is_logic_instr instr \<or> is_coil_instr instr)"


section \<open>Notions the properties are stated with\<close>

definition is_content :: "string \<Rightarrow> bool" where
  \<comment> \<open>the raw lines that reach \<open>current.append(line)\<close> in \<open>split_rungs\<close>: neither blank
      after stripping nor a boundary marker\<close>
  "is_content raw_line = (strip raw_line \<noteq> [] \<and> \<not> is_boundary (strip raw_line))"

definition st_blocks :: "string \<Rightarrow> string list" where
  \<comment> \<open>the blocks of a text as the specification describes them: the translation of each
      rung of the segmentation, in rung order, under its 1-based index\<close>
  "st_blocks text = map (\<lambda>(i, rung). rung_to_st rung (int i)) (enumerate 1 (split_rungs text))"

definition clean_line :: "string \<Rightarrow> bool" where
  \<comment> \<open>what \<open>split_rungs\<close> stores in a rung: a stripped, non-empty line without a line
      boundary in it that is no boundary marker\<close>
  "clean_line l = (l \<noteq> [] \<and> strip l = l \<and> \<not> is_boundary l \<and> (\<forall>c\<in>set l. \<not> is_linebreak c))"

section \<open>The engine with Python's exceptions made explicit\<close>

text \<open>
  No function on the path of \<open>convert_text_to_st\<close> has a \<open>raise\<close>, and the string
  methods it calls do not raise on a \<open>str\<close>. What can raise is a list subscript:
  \<open>parts[0]\<close> and \<open>parts[1]\<close> in \<open>_parse_instruction\<close>. The definitions of this
  section repeat the engine with the subscripts as they are in Python, an
  \<open>IndexError\<close> out of range, and with every caller passing an exception on.
\<close>

datatype py_error = IndexError

definition subscript :: "'a list \<Rightarrow> nat \<Rightarrow> py_error + 'a" where
  \<comment> \<open>\<open>xs[i]\<close> for an index that is not negative\<close>
  "subscript xs i = (if i < length xs then Inr (xs ! i) else Inl IndexError)"

definition parse_instruction_exc :: "string \<Rightarrow> py_error + string \<times> string" where
  "parse_instruction_exc instr =
     (let parts = split_maxsplit1 instr in
      if parts = [] then Inr ('''', '''')
      else
        (case subscript parts 0 of
           Inl e \<Rightarrow> Inl e
         | Inr p0 \<Rightarrow>
             (let opcode = upper p0 in
              if length parts > 1 then
                (case subscript parts 1 of
                   Inl e \<Rightarrow> Inl e
                 | Inr p1 \<Rightarrow> Inr (opcode, strip p1))
              else Inr (opcode, ''''))))"

primrec rung_loop_exc :: "string list \<Rightarrow> string list \<times> coil_assignment
                        \<Rightarrow> py_error + string list \<times> coil_assignment" where
  "rung_loop_exc [] st = Inr st"
| "rung_loop_exc (instr # rung) st =
     (case parse_instruction_exc instr of
        Inl e \<Rightarrow> Inl e
      | Inr parsed \<Rightarrow> rung_loop_exc rung (apply_instruction st parsed))"

definition rung_to_expression_exc :: "string list \<Rightarrow> py_error + string \<times> coil_assignment" where
  "rung_to_expression_exc rung =
     (case rung_loop_exc rung ([], None) of
        Inl e \<Rightarrow> Inl e
      | Inr (expr_parts, coil_assignment) \<Rightarrow> Inr (join '' '' expr_parts, coil_assignment))"

definition rung_to_st_exc :: "string list \<Rightarrow> int \<Rightarrow> py_error + string" where
  "rung_to_st_exc rung index =
     (case rung_to_expression_exc rung of
        Inl e \<Rightarrow> Inl e
      | Inr (expr, None) \<Rightarrow> Inr (''(* Rung '' @ str_int index @ '': no coil found *)'')
      | Inr (expr, Some (opcode, coil)) \<Rightarrow>
          Inr (join [CHR 0x0A]
                 [''(* Rung '' @ str_int index @ '' *)'', coil_statement opcode coil expr]))"

fun convert_loop_exc :: "string list list \<Rightarrow> int \<Rightarrow> string list \<Rightarrow> py_error + string list" where
  "convert_loop_exc [] i st_lines = Inr st_lines"
| "convert_loop_exc (rung # rungs) i st_lines =
     (case rung_to_st_exc rung i of
        Inl e \<Rightarrow> Inl e
      | Inr st \<Rightarrow> convert_loop_exc rungs (i + 1) (st_lines @ [st, '''']))"

definition convert_text_to_st_exc :: "string \<Rightarrow> py_error + string" where
  "convert_text_to_st_exc text =
     (case convert_loop_exc (split_rungs text) 1 [] of
        Inl e \<Rightarrow> Inl e
      | Inr st_lines \<Rightarrow> Inr (join [CHR 0x0A] st_lines))"

section \<open>Facts about the string primitives\<close>

lemma strip_subset: "set (strip s) \<subseteq> set s"
proof
  fix c assume "c \<in> set (strip s)"
  then have "c \<in> set (dropWhile is_space (rev (dropWhile is_space s)))"
    by (simp add: strip_def)
  then have "c \<in> set (rev (dropWhile is_space s))" by (rule set_dropWhileD)
  then have "c \<in> set (dropWhile is_space s)" by simp
  then show "c \<in> set s" by (rule set_dropWhileD)
qed

lemma strip_Nil: "strip [] = []"
  by (simp add: strip_def)

lemma dropWhile_hd: "xs \<noteq> [] \<Longrightarrow> \<not> P (hd xs) \<Longrightarrow> dropWhile P xs = xs"
  by (cases xs) simp_all

lemma strip_fixed:
  assumes "l \<noteq> []" and "\<not> is_space (hd l)" and "\<not> is_space (last l)"
  shows "strip l = l"
proof -
  have a: "dropWhile is_space l = l" using assms(1,2) by (rule dropWhile_hd)
  have "rev l \<noteq> []" using assms(1) by simp
  moreover have "hd (rev l) = last l" using assms(1) by (simp add: hd_rev)
  ultimately have "dropWhile is_space (rev l) = rev l"
    using assms(3) by (simp add: dropWhile_hd)
  with a show ?thesis by (simp add: strip_def)
qed

lemma strip_ends:
  assumes "strip s \<noteq> []"
  shows "\<not> is_space (hd (strip s)) \<and> \<not> is_space (last (strip s))"
proof -
  define s1 where "s1 = dropWhile is_space s"
  define d where "d = dropWhile is_space (rev s1)"
  have st: "strip s = rev d" by (simp add: strip_def d_def s1_def)
  with assms have d: "d \<noteq> []" by simp
  have s1: "s1 \<noteq> []"
  proof
    assume "s1 = []"
    then have "d = []" by (simp add: d_def)
    with d show False by simp
  qed
  have "\<not> is_space (hd d)" using d unfolding d_def by (rule hd_dropWhile)
  then have 1: "\<not> is_space (last (strip s))" using d st by (simp add: last_rev)
  have "rev s1 = takeWhile is_space (rev s1) @ d" by (simp add: d_def)
  then have "last (rev s1) = last (takeWhile is_space (rev s1) @ d)" by simp
  also have "\<dots> = last d" using d by (rule last_appendR)
  finally have "last d = hd s1" using s1 by (simp add: last_rev)
  moreover have "\<not> is_space (hd s1)" using s1 unfolding s1_def by (rule hd_dropWhile)
  ultimately have 2: "\<not> is_space (hd (strip s))" using d st by (simp add: hd_rev)
  from 1 2 show ?thesis by simp
qed

lemma strip_idem: "strip (strip s) = strip s"
proof (cases "strip s = []")
  case True
  then show ?thesis by (simp add: strip_Nil)
next
  case False
  then show ?thesis using strip_ends [OF False] by (intro strip_fixed) simp_all
qed

lemma linebreak_CR: "\<not> is_linebreak c \<Longrightarrow> c \<noteq> CHR 0x0D"
  by (auto simp: is_linebreak_def)

lemma splitlines_from_no_break:
  "list_all (\<lambda>c. \<not> is_linebreak c) cur \<Longrightarrow>
     list_all (list_all (\<lambda>c. \<not> is_linebreak c)) (splitlines_from cur s)"
proof (induction cur s rule: splitlines_from.induct)
  case (1 cur)
  then show ?case by simp
next
  case (2 cur c cs)
  note cur = "2.prems"
  show ?case
  proof (cases "c = CHR 0x0D")
    case cr: True
    show ?thesis
    proof (cases cs)
      case Nil
      with cr cur show ?thesis by simp
    next
      case (Cons d ds)
      show ?thesis
      proof (cases "d = CHR 0x0A")
        case lf: True
        have "list_all (list_all (\<lambda>c. \<not> is_linebreak c)) (splitlines_from [] ds)"
          using "2.IH"(1) [OF cr Cons lf] by simp
        with cr Cons lf cur show ?thesis by simp
      next
        case nlf: False
        have "list_all (list_all (\<lambda>c. \<not> is_linebreak c)) (splitlines_from [] (d # ds))"
          using "2.IH"(2) [OF cr Cons nlf] by simp
        with cr Cons nlf cur show ?thesis by (simp del: splitlines_from.simps add: splitlines_from.simps [of cur])
      qed
    qed
  next
    case ncr: False
    show ?thesis
    proof (cases "is_linebreak c")
      case lb: True
      have "list_all (list_all (\<lambda>c. \<not> is_linebreak c)) (splitlines_from [] cs)"
        using "2.IH"(3) [OF ncr lb] by simp
      with ncr lb cur show ?thesis by simp
    next
      case nlb: False
      have "list_all (list_all (\<lambda>c. \<not> is_linebreak c)) (splitlines_from (cur @ [c]) cs)"
        using "2.IH"(4) [OF ncr nlb] cur nlb by simp
      with ncr nlb show ?thesis by simp
    qed
  qed
qed

lemma splitlines_no_break:
  "l \<in> set (splitlines text) \<Longrightarrow> c \<in> set l \<Longrightarrow> \<not> is_linebreak c"
  using splitlines_from_no_break [of "[]" "text"]
  by (auto simp: splitlines_def list_all_iff)

lemma splitlines_from_line:
  "\<forall>c\<in>set l. \<not> is_linebreak c \<Longrightarrow>
     splitlines_from cur (l @ CHR 0x0A # rest) = (cur @ l) # splitlines_from [] rest"
proof (induction l arbitrary: cur)
  case Nil
  show ?case by (simp add: is_linebreak_def)
next
  case (Cons c l)
  then have "c \<noteq> CHR 0x0D" and "\<not> is_linebreak c" by (simp_all add: linebreak_CR)
  then show ?case using Cons by simp
qed

lemma splitlines_from_last:
  "\<forall>c\<in>set l. \<not> is_linebreak c \<Longrightarrow> cur @ l \<noteq> [] \<Longrightarrow> splitlines_from cur l = [cur @ l]"
proof (induction l arbitrary: cur)
  case Nil
  then show ?case by simp
next
  case (Cons c l)
  then have "c \<noteq> CHR 0x0D" and "\<not> is_linebreak c" by (simp_all add: linebreak_CR)
  then show ?case using Cons by simp
qed

lemma splitlines_from_join:
  "\<forall>l\<in>set (x # xs). l \<noteq> [] \<and> (\<forall>c\<in>set l. \<not> is_linebreak c) \<Longrightarrow>
     splitlines_from [] (join [CHR 0x0A] (x # xs)) = x # xs"
proof (induction xs arbitrary: x)
  case Nil
  then show ?case by (simp add: splitlines_from_last)
next
  case (Cons y ys)
  then show ?case by (simp add: splitlines_from_line)
qed


section \<open>The loop of \<open>split_rungs\<close>\<close>

lemma split_rungs_loop_skip:
  "\<not> is_content raw \<Longrightarrow>
     split_rungs_loop (raw # rest) rungs current =
       split_rungs_loop rest (if current \<noteq> [] then rungs @ [current] else rungs) []"
  by (auto simp: is_content_def Let_def)

lemma split_rungs_loop_content:
  "is_content raw \<Longrightarrow>
     split_rungs_loop (raw # rest) rungs current =
       split_rungs_loop rest rungs (current @ [strip raw])"
  by (simp add: is_content_def Let_def)

lemma split_rungs_loop_acc:
  "split_rungs_loop ls rungs current = rungs @ split_rungs_loop ls [] current"
proof (induction ls arbitrary: rungs current)
  case Nil
  show ?case by simp
next
  case (Cons raw rest)
  show ?case
  proof (cases "is_content raw")
    case True
    have "split_rungs_loop rest rungs (current @ [strip raw]) =
            rungs @ split_rungs_loop rest [] (current @ [strip raw])"
      by (rule Cons.IH)
    then show ?thesis by (simp only: split_rungs_loop_content [OF True])
  next
    case False
    show ?thesis
    proof (cases "current = []")
      case True
      have "split_rungs_loop rest rungs [] = rungs @ split_rungs_loop rest [] []"
        by (rule Cons.IH)
      with True show ?thesis by (simp only: split_rungs_loop_skip [OF False] if_False simp_thms)
    next
      case ne: False
      have "split_rungs_loop rest (rungs @ [current]) [] = (rungs @ [current]) @ split_rungs_loop rest [] []"
        by (rule Cons.IH)
      moreover have "split_rungs_loop rest ([] @ [current]) [] = ([] @ [current]) @ split_rungs_loop rest [] []"
        by (rule Cons.IH)
      ultimately show ?thesis using ne
        by (simp only: split_rungs_loop_skip [OF False] if_True simp_thms append_assoc append_Nil)
    qed
  qed
qed

lemma split_rungs_loop_nonempty:
  "list_all (\<lambda>r. r \<noteq> []) rungs \<Longrightarrow>
     list_all (\<lambda>r. r \<noteq> []) (split_rungs_loop ls rungs current)"
proof (induction ls arbitrary: rungs current)
  case Nil
  then show ?case by simp
next
  case (Cons raw rest)
  show ?case
  proof (cases "is_content raw")
    case True
    show ?thesis unfolding split_rungs_loop_content [OF True]
      using Cons.prems by (rule Cons.IH)
  next
    case False
    have "list_all (\<lambda>r. r \<noteq> []) (if current \<noteq> [] then rungs @ [current] else rungs)"
      using Cons.prems by simp
    then show ?thesis unfolding split_rungs_loop_skip [OF False]
      by (rule Cons.IH)
  qed
qed

lemma split_rungs_loop_seps:
  "list_all (\<lambda>s. \<not> is_content s) seps \<Longrightarrow> seps \<noteq> [] \<Longrightarrow>
     split_rungs_loop (seps @ ys) rungs current =
       split_rungs_loop ys (if current \<noteq> [] then rungs @ [current] else rungs) []"
proof (induction seps arbitrary: rungs current)
  case Nil
  then show ?case by simp
next
  case (Cons s seps)
  then have s: "\<not> is_content s" by simp
  show ?case
  proof (cases "seps = []")
    case True
    then show ?thesis using split_rungs_loop_skip [OF s] by simp
  next
    case False
    have "split_rungs_loop (seps @ ys) (if current \<noteq> [] then rungs @ [current] else rungs) [] =
            split_rungs_loop ys (if current \<noteq> [] then rungs @ [current] else rungs) []"
      using Cons.IH [OF _ False, of "if current \<noteq> [] then rungs @ [current] else rungs" "[]"] Cons.prems
      by simp
    then show ?thesis using split_rungs_loop_skip [OF s] by simp
  qed
qed

lemma split_rungs_loop_break:
  "list_all (\<lambda>s. \<not> is_content s) seps \<Longrightarrow> seps \<noteq> [] \<Longrightarrow>
     split_rungs_loop (xs @ seps @ ys) rungs current =
       split_rungs_loop xs rungs current @ split_rungs_loop ys [] []"
proof (induction xs arbitrary: rungs current)
  case Nil
  have "split_rungs_loop (seps @ ys) rungs current =
          (if current \<noteq> [] then rungs @ [current] else rungs) @ split_rungs_loop ys [] []"
    unfolding split_rungs_loop_seps [OF Nil.prems]
    by (rule split_rungs_loop_acc)
  then show ?case by simp
next
  case (Cons raw xs)
  show ?case
  proof (cases "is_content raw")
    case True
    show ?thesis
      using Cons.IH [OF Cons.prems] by (simp only: append_Cons split_rungs_loop_content [OF True])
  next
    case False
    show ?thesis
      using Cons.IH [OF Cons.prems] by (simp only: append_Cons split_rungs_loop_skip [OF False])
  qed
qed

lemma split_rungs_loop_ends_with:
  "is_content c \<Longrightarrow>
     \<exists>A r. split_rungs_loop (xs @ [c]) rungs current = A @ [r @ [strip c]]"
proof (induction xs arbitrary: rungs current)
  case Nil
  then have "split_rungs_loop ([] @ [c]) rungs current =
               split_rungs_loop [] rungs (current @ [strip c])"
    by (simp only: append_Nil split_rungs_loop_content)
  then have "split_rungs_loop ([] @ [c]) rungs current = rungs @ [current @ [strip c]]"
    by simp
  then show ?case by blast
next
  case (Cons raw xs)
  show ?case
  proof (cases "is_content raw")
    case True
    show ?thesis
      using Cons.IH [OF Cons.prems] by (simp only: append_Cons split_rungs_loop_content [OF True])
  next
    case False
    show ?thesis
      using Cons.IH [OF Cons.prems] by (simp only: append_Cons split_rungs_loop_skip [OF False])
  qed
qed

lemma split_rungs_loop_open:
  "\<exists>r B. split_rungs_loop ys rungs (c # current) = rungs @ (c # r) # B"
proof (induction ys arbitrary: current)
  case Nil
  show ?case by simp
next
  case (Cons raw ys)
  show ?case
  proof (cases "is_content raw")
    case True
    have "\<exists>r B. split_rungs_loop ys rungs (c # (current @ [strip raw])) = rungs @ (c # r) # B"
      by (rule Cons.IH)
    then show ?thesis by (simp add: split_rungs_loop_content [OF True] del: split_rungs_loop.simps)
  next
    case False
    have "split_rungs_loop (raw # ys) rungs (c # current) =
            split_rungs_loop ys (rungs @ [c # current]) []"
      by (simp add: split_rungs_loop_skip [OF False] del: split_rungs_loop.simps)
    also have "\<dots> = (rungs @ [c # current]) @ split_rungs_loop ys [] []"
      by (rule split_rungs_loop_acc)
    finally show ?thesis by simp
  qed
qed

lemma split_rungs_loop_starts_with:
  "is_content c \<Longrightarrow> \<exists>r B. split_rungs_loop (c # ys) [] [] = (strip c # r) # B"
  using split_rungs_loop_open [of ys "[]" "strip c" "[]"]
  by (simp add: split_rungs_loop_content del: split_rungs_loop.simps)

lemma split_rungs_loop_clean:
  "list_all clean_line ls \<Longrightarrow> current @ ls \<noteq> [] \<Longrightarrow>
     split_rungs_loop ls rungs current = rungs @ [current @ ls]"
proof (induction ls arbitrary: current)
  case Nil
  then show ?case by simp
next
  case (Cons l ls)
  then have "clean_line l" by simp
  then have c: "is_content l" and s: "strip l = l"
    by (simp_all add: clean_line_def is_content_def)
  have "split_rungs_loop ls rungs (current @ [l]) = rungs @ [(current @ [l]) @ ls]"
    using Cons.prems by (intro Cons.IH) simp_all
  then show ?case by (simp add: split_rungs_loop_content [OF c] s del: split_rungs_loop.simps)
qed

lemma split_rungs_loop_lines_clean:
  "list_all (list_all (\<lambda>c. \<not> is_linebreak c)) ls \<Longrightarrow>
   list_all (list_all clean_line) rungs \<Longrightarrow> list_all clean_line current \<Longrightarrow>
     list_all (list_all clean_line) (split_rungs_loop ls rungs current)"
proof (induction ls arbitrary: rungs current)
  case Nil
  then show ?case by simp
next
  case (Cons raw rest)
  then have rest: "list_all (list_all (\<lambda>c. \<not> is_linebreak c)) rest"
    and raw: "list_all (\<lambda>c. \<not> is_linebreak c) raw" by simp_all
  show ?case
  proof (cases "is_content raw")
    case True
    have "list_all (\<lambda>c. \<not> is_linebreak c) (strip raw)"
      using raw strip_subset [of raw] by (auto simp: list_all_iff)
    then have "clean_line (strip raw)"
      using True by (simp add: clean_line_def is_content_def strip_idem list_all_iff)
    then have "list_all clean_line (current @ [strip raw])"
      using Cons.prems(3) by simp
    then show ?thesis unfolding split_rungs_loop_content [OF True]
      using rest Cons.prems(2) by (intro Cons.IH)
  next
    case False
    have "list_all (list_all clean_line) (if current \<noteq> [] then rungs @ [current] else rungs)"
      using Cons.prems(2,3) by simp
    then show ?thesis unfolding split_rungs_loop_skip [OF False]
      using rest by (intro Cons.IH) simp_all
  qed
qed

lemma split_rungs_clean:
  "rung \<in> set (split_rungs text) \<Longrightarrow> rung \<noteq> [] \<and> list_all clean_line rung"
proof -
  assume r: "rung \<in> set (split_rungs text)"
  have "list_all (list_all (\<lambda>c. \<not> is_linebreak c)) (splitlines text)"
    using splitlines_from_no_break [of "[]" "text"] by (simp add: splitlines_def)
  then have "list_all (list_all clean_line) (split_rungs text)"
    unfolding split_rungs_def by (intro split_rungs_loop_lines_clean) simp_all
  moreover have "list_all (\<lambda>r. r \<noteq> []) (split_rungs text)"
    unfolding split_rungs_def by (intro split_rungs_loop_nonempty) simp
  ultimately show ?thesis using r by (simp add: list_all_iff)
qed

lemma split_rungs_loop_no_content:
  "\<forall>l\<in>set ls. \<not> is_content l \<Longrightarrow> split_rungs_loop ls rungs [] = rungs"
  by (induction ls arbitrary: rungs) (auto simp: is_content_def Let_def)

section \<open>The loop of \<open>rung_to_expression\<close>\<close>

lemma apply_instruction_coil:
  "op \<in> set coil_opcodes \<Longrightarrow>
     apply_instruction (parts, coil) (op, operand) = (parts, Some (op, operand))"
  by (auto simp: coil_opcodes_def)

lemma apply_instruction_unknown:
  "op \<notin> set coil_opcodes \<Longrightarrow> op \<notin> set logic_opcodes \<Longrightarrow>
     apply_instruction (parts, coil) (op, operand) = (parts, coil)"
  by (simp add: coil_opcodes_def logic_opcodes_def)

lemma apply_instruction_not_coil:
  "op \<notin> set coil_opcodes \<Longrightarrow>
     apply_instruction (parts, coil) (op, operand) =
       (fst (apply_instruction (parts, coil') (op, operand)), coil)"
  by (simp add: coil_opcodes_def)

lemma expr_step_coil:
  "is_coil_instr instr \<Longrightarrow> expr_step (parts, coil) instr = (parts, Some (parse_instruction instr))"
  unfolding expr_step_def is_coil_instr_def opcode_of_def
  by (cases "parse_instruction instr") (simp add: apply_instruction_coil del: apply_instruction.simps)

lemma expr_step_unknown:
  "\<not> is_recognized instr \<Longrightarrow> expr_step st instr = st"
  unfolding expr_step_def is_recognized_def is_coil_instr_def is_logic_instr_def opcode_of_def
  by (cases "parse_instruction instr"; cases st)
     (simp add: apply_instruction_unknown del: apply_instruction.simps)

lemma expr_step_not_coil:
  "\<not> is_coil_instr instr \<Longrightarrow>
     expr_step (parts, coil) instr = (fst (expr_step (parts, coil') instr), coil)"
  unfolding expr_step_def is_coil_instr_def opcode_of_def
  by (cases "parse_instruction instr")
     (simp del: apply_instruction.simps, rule apply_instruction_not_coil, simp)

lemma expr_step_not_logic:
  "\<not> is_logic_instr instr \<Longrightarrow> fst (expr_step (parts, coil) instr) = parts"
  unfolding expr_step_def is_logic_instr_def opcode_of_def
  by (cases "parse_instruction instr") (simp add: logic_opcodes_def)

lemma foldl_expr_step_fst_filter:
  "fst (foldl expr_step (parts, coil) rung) =
     fst (foldl expr_step (parts, coil') (filter (\<lambda>i. \<not> is_coil_instr i) rung))"
proof (induction rung arbitrary: parts coil coil')
  case Nil
  show ?case by simp
next
  case (Cons instr rung)
  show ?case
  proof (cases "is_coil_instr instr")
    case True
    then show ?thesis using Cons.IH by (simp add: expr_step_coil)
  next
    case False
    obtain parts' where p: "expr_step (parts, coil) instr = (parts', coil)"
      using expr_step_not_coil [OF False] by blast
    have q: "expr_step (parts, coil') instr = (parts', coil')"
      using expr_step_not_coil [OF False, of parts coil' coil] p by simp
    show ?thesis using False p q Cons.IH by simp
  qed
qed

lemma foldl_expr_step_snd:
  "snd (foldl expr_step (parts, coil) rung) =
     (if filter is_coil_instr rung = [] then coil
      else Some (parse_instruction (last (filter is_coil_instr rung))))"
proof (induction rung arbitrary: parts coil)
  case Nil
  show ?case by simp
next
  case (Cons instr rung)
  show ?case
  proof (cases "is_coil_instr instr")
    case True
    then show ?thesis using Cons.IH by (simp add: expr_step_coil)
  next
    case False
    obtain parts' where p: "expr_step (parts, coil) instr = (parts', coil)"
      using expr_step_not_coil [OF False] by blast
    show ?thesis using False p Cons.IH by simp
  qed
qed

lemma foldl_expr_step_unknown:
  "foldl expr_step st rung = foldl expr_step st (filter is_recognized rung)"
  by (induction rung arbitrary: st) (simp_all add: expr_step_unknown)

lemma foldl_expr_step_no_logic:
  "\<forall>i\<in>set rung. \<not> is_logic_instr i \<Longrightarrow> fst (foldl expr_step (parts, coil) rung) = parts"
proof (induction rung arbitrary: parts coil)
  case Nil
  show ?case by simp
next
  case (Cons instr rung)
  have "fst (expr_step (parts, coil) instr) = parts"
    using Cons.prems by (simp add: expr_step_not_logic)
  then obtain c where "expr_step (parts, coil) instr = (parts, c)"
    by (cases "expr_step (parts, coil) instr") simp
  then show ?case using Cons by simp
qed

lemma rung_to_expression_eq:
  "rung_to_expression rung =
     (join '' '' (fst (foldl expr_step ([], None) rung)), snd (foldl expr_step ([], None) rung))"
  by (simp add: rung_to_expression_def split: prod.split)



section \<open>No exception on the path of \<open>convert_text_to_st\<close>\<close>

lemma parse_instruction_exc_eq: "parse_instruction_exc instr = Inr (parse_instruction instr)"
proof (cases "split_maxsplit1 instr")
  case Nil
  then show ?thesis by (simp add: parse_instruction_exc_def parse_instruction_def)
next
  case (Cons p0 ps)
  then show ?thesis
    by (cases ps) (simp_all add: parse_instruction_exc_def parse_instruction_def subscript_def)
qed

lemma rung_loop_exc_eq: "rung_loop_exc rung st = Inr (foldl expr_step st rung)"
  by (induction rung arbitrary: st) (simp_all add: parse_instruction_exc_eq expr_step_def)

lemma rung_to_expression_exc_eq: "rung_to_expression_exc rung = Inr (rung_to_expression rung)"
  by (simp add: rung_to_expression_exc_def rung_to_expression_def rung_loop_exc_eq split: prod.split)

lemma rung_to_st_exc_eq: "rung_to_st_exc rung n = Inr (rung_to_st rung n)"
  by (simp add: rung_to_st_exc_def rung_to_st_def rung_to_expression_exc_eq
           split: prod.split option.split)

lemma convert_loop_exc_eq: "convert_loop_exc rungs i acc = Inr (convert_loop rungs i acc)"
  by (induction rungs arbitrary: i acc) (simp_all add: rung_to_st_exc_eq)

section \<open>Rung translation\<close>

lemma rung_to_st_no_coil:
  "snd (rung_to_expression rung) = None \<Longrightarrow>
     rung_to_st rung n = ''(* Rung '' @ str_int n @ '': no coil found *)''"
  by (cases "rung_to_expression rung") (simp add: rung_to_st_def)

lemma rung_to_st_coil:
  "rung_to_expression rung = (expr, Some (opcode, coil)) \<Longrightarrow>
     rung_to_st rung n = ''(* Rung '' @ str_int n @ '' *)'' @ [CHR 0x0A] @ coil_statement opcode coil expr"
  by (simp add: rung_to_st_def)

lemma rung_to_expression_snd:
  "snd (rung_to_expression rung) =
     (if filter is_coil_instr rung = [] then None
      else Some (parse_instruction (last (filter is_coil_instr rung))))"
  by (simp add: rung_to_expression_eq foldl_expr_step_snd)

lemma rung_to_expression_fst_filter:
  "fst (rung_to_expression rung) = fst (rung_to_expression (filter (\<lambda>i. \<not> is_coil_instr i) rung))"
  using foldl_expr_step_fst_filter [of "[]" None rung None]
  by (simp add: rung_to_expression_eq)

lemma rung_to_expression_move_coil:
  assumes "filter is_coil_instr rung \<noteq> []"
  shows "rung_to_expression (filter (\<lambda>i. \<not> is_coil_instr i) rung @ [last (filter is_coil_instr rung)])
           = rung_to_expression rung"
proof -
  let ?nc = "filter (\<lambda>i. \<not> is_coil_instr i) rung"
  let ?lc = "last (filter is_coil_instr rung)"
  have "?lc \<in> set (filter is_coil_instr rung)" using assms last_in_set by blast
  then have lc: "is_coil_instr ?lc" by simp
  obtain parts c where f: "foldl expr_step ([], None) ?nc = (parts, c)"
    by (cases "foldl expr_step ([], None) ?nc")
  have "foldl expr_step ([], None) (?nc @ [?lc]) = (parts, Some (parse_instruction ?lc))"
    using f lc by (simp add: expr_step_coil)
  then have l: "rung_to_expression (?nc @ [?lc]) = (join '' '' parts, Some (parse_instruction ?lc))"
    by (simp add: rung_to_expression_eq)
  have "fst (rung_to_expression rung) = join '' '' parts"
    using rung_to_expression_fst_filter [of rung] f by (simp add: rung_to_expression_eq)
  moreover have "snd (rung_to_expression rung) = Some (parse_instruction ?lc)"
    using assms by (simp add: rung_to_expression_snd)
  ultimately have "rung_to_expression rung = (join '' '' parts, Some (parse_instruction ?lc))"
    by (cases "rung_to_expression rung") simp
  with l show ?thesis by simp
qed

text \<open>
  C3. In a rung with two or more coil instructions (opcode \<open>OUT\<close>, \<open>OUTNOT\<close>,
  \<open>SET\<close> or \<open>RST\<close>) the coil assignment is the last coil instruction in line order,
  the expression is the one built from the instructions that are no coil instructions,
  wherever they stand, and the emitted block is the block of the rung made of those
  instructions followed by that last coil instruction alone. No exception is raised.
\<close>

theorem last_coil_wins:
  assumes "2 \<le> length (filter is_coil_instr rung)"
  shows "rung_to_expression rung =
           (fst (rung_to_expression (filter (\<lambda>i. \<not> is_coil_instr i) rung)),
            Some (parse_instruction (last (filter is_coil_instr rung))))
         \<and> rung_to_st rung n =
             rung_to_st (filter (\<lambda>i. \<not> is_coil_instr i) rung @ [last (filter is_coil_instr rung)]) n
         \<and> rung_to_st_exc rung n = Inr (rung_to_st rung n)"
proof -
  from assms have ne: "filter is_coil_instr rung \<noteq> []" by auto
  have "fst (rung_to_expression rung) = fst (rung_to_expression (filter (\<lambda>i. \<not> is_coil_instr i) rung))"
    by (rule rung_to_expression_fst_filter)
  moreover have "snd (rung_to_expression rung) = Some (parse_instruction (last (filter is_coil_instr rung)))"
    using ne by (simp add: rung_to_expression_snd)
  ultimately have a: "rung_to_expression rung =
           (fst (rung_to_expression (filter (\<lambda>i. \<not> is_coil_instr i) rung)),
            Some (parse_instruction (last (filter is_coil_instr rung))))"
    by (cases "rung_to_expression rung") simp
  have b: "rung_to_st rung n =
             rung_to_st (filter (\<lambda>i. \<not> is_coil_instr i) rung @ [last (filter is_coil_instr rung)]) n"
    using rung_to_expression_move_coil [OF ne] by (simp add: rung_to_st_def)
  have c: "rung_to_st_exc rung n = Inr (rung_to_st rung n)"
    by (rule rung_to_st_exc_eq)
  from a b c show ?thesis by blast
qed

theorem last_coil_wins_witness:
  "2 \<le> length (filter is_coil_instr [''OUT Y0'', ''LD X0'', ''SET Y1'', ''AND X1''])
   \<and> rung_to_expression [''OUT Y0'', ''LD X0'', ''SET Y1'', ''AND X1'']
       = (''X0 AND X1'', Some (''SET'', ''Y1''))
   \<and> rung_to_st [''OUT Y0'', ''LD X0'', ''SET Y1'', ''AND X1''] 1
       = rung_to_st [''LD X0'', ''AND X1'', ''SET Y1''] 1
   \<and> rung_to_st [''LD X0'', ''AND X1'', ''SET Y1''] 1
       = ''(* Rung 1 *)'' @ [CHR 0x0A] @ ''IF X0 AND X1 THEN Y1 := TRUE; END_IF;''"
proof -
  let ?r = "[''OUT Y0'', ''LD X0'', ''SET Y1'', ''AND X1'']"
  have h: "2 \<le> length (filter is_coil_instr ?r)" by code_simp
  have f1: "filter (\<lambda>i. \<not> is_coil_instr i) ?r = [''LD X0'', ''AND X1'']" by code_simp
  have f2: "last (filter is_coil_instr ?r) = ''SET Y1''" by code_simp
  have e1: "fst (rung_to_expression [''LD X0'', ''AND X1'']) = ''X0 AND X1''" by code_simp
  have e2: "parse_instruction ''SET Y1'' = (''SET'', ''Y1'')" by code_simp
  have e3: "rung_to_st [''LD X0'', ''AND X1'', ''SET Y1''] 1
       = ''(* Rung 1 *)'' @ [CHR 0x0A] @ ''IF X0 AND X1 THEN Y1 := TRUE; END_IF;''" by code_simp
  from last_coil_wins [OF h, of 1] show ?thesis
    unfolding f1 f2 e1 e2 using h e3 by simp
qed

text \<open>
  C4. A rung with no coil instruction is translated, at index \<open>n\<close>, to the single
  line \<open>(* Rung n: no coil found *)\<close>; the expression that was built is not part of it.
\<close>

theorem no_coil_found:
  "\<forall>instr\<in>set rung. \<not> is_coil_instr instr \<Longrightarrow>
     rung_to_st rung n = ''(* Rung '' @ str_int n @ '': no coil found *)''"
proof -
  assume "\<forall>instr\<in>set rung. \<not> is_coil_instr instr"
  then have "filter is_coil_instr rung = []" by (simp add: filter_empty_conv)
  then have "snd (rung_to_expression rung) = None" by (simp add: rung_to_expression_snd)
  then show ?thesis by (rule rung_to_st_no_coil)
qed

theorem no_coil_found_witness:
  "\<not> is_coil_instr ''LD X0'' \<and> \<not> is_coil_instr ''AND X1''
   \<and> rung_to_st [''LD X0'', ''AND X1''] 12 = ''(* Rung 12: no coil found *)''"
proof -
  have h: "\<forall>instr\<in>set [''LD X0'', ''AND X1'']. \<not> is_coil_instr instr" by code_simp
  have s: "str_int 12 = ''12''" by code_simp
  from no_coil_found [OF h, of 12] h show ?thesis unfolding s by simp
qed


lemma rung_to_st_cong:
  "rung_to_expression r1 = rung_to_expression r2 \<Longrightarrow> rung_to_st r1 n = rung_to_st r2 n"
  by (simp add: rung_to_st_def)

lemma rung_to_expression_drop_unknown:
  "\<not> is_recognized instr \<Longrightarrow>
     rung_to_expression (xs @ instr # ys) = rung_to_expression (xs @ ys)"
  by (simp add: rung_to_expression_def expr_step_unknown)

text \<open>
  C5. An instruction whose upper-cased opcode is none of the thirteen recognized ones
  changes neither the expression nor the coil assignment of its rung, and the block of
  the rung is the block of the rung without it: no comment, no error. The rung
  \<open>LD X0\<close>, \<open>XYZ X1\<close>, \<open>OUT Y0\<close> has the expression \<open>X0\<close> and the statement
  \<open>Y0 := X0;\<close>.
\<close>

theorem unknown_opcode_ignored:
  "(\<not> is_recognized instr \<longrightarrow>
      rung_to_expression (xs @ instr # ys) = rung_to_expression (xs @ ys)
      \<and> rung_to_st (xs @ instr # ys) n = rung_to_st (xs @ ys) n
      \<and> rung_to_st_exc (xs @ instr # ys) n = Inr (rung_to_st (xs @ ys) n))
   \<and> rung_to_expression [''LD X0'', ''XYZ X1'', ''OUT Y0''] = (''X0'', Some (''OUT'', ''Y0''))
   \<and> rung_to_st [''LD X0'', ''XYZ X1'', ''OUT Y0''] 1 = ''(* Rung 1 *)'' @ [CHR 0x0A] @ ''Y0 := X0;''"
proof -
  have a: "\<not> is_recognized instr \<longrightarrow>
      rung_to_expression (xs @ instr # ys) = rung_to_expression (xs @ ys)
      \<and> rung_to_st (xs @ instr # ys) n = rung_to_st (xs @ ys) n
      \<and> rung_to_st_exc (xs @ instr # ys) n = Inr (rung_to_st (xs @ ys) n)"
    using rung_to_expression_drop_unknown rung_to_st_cong rung_to_st_exc_eq by metis
  have b: "rung_to_expression [''LD X0'', ''XYZ X1'', ''OUT Y0''] = (''X0'', Some (''OUT'', ''Y0''))"
    by code_simp
  have c: "rung_to_st [''LD X0'', ''XYZ X1'', ''OUT Y0''] 1 = ''(* Rung 1 *)'' @ [CHR 0x0A] @ ''Y0 := X0;''"
    by code_simp
  from a b c show ?thesis by blast
qed

theorem unknown_opcode_ignored_witness:
  "\<not> is_recognized ''XYZ X1''
   \<and> rung_to_expression ([''LD X0''] @ ''XYZ X1'' # [''OUT Y0'']) = rung_to_expression ([''LD X0''] @ [''OUT Y0''])
   \<and> rung_to_st ([''LD X0''] @ ''XYZ X1'' # [''OUT Y0'']) 1 = rung_to_st ([''LD X0''] @ [''OUT Y0'']) 1
   \<and> rung_to_st ([''LD X0''] @ [''OUT Y0'']) 1 = ''(* Rung 1 *)'' @ [CHR 0x0A] @ ''Y0 := X0;''"
proof -
  have h: "\<not> is_recognized ''XYZ X1''" by code_simp
  have e: "rung_to_st ([''LD X0''] @ [''OUT Y0'']) 1 = ''(* Rung 1 *)'' @ [CHR 0x0A] @ ''Y0 := X0;''"
    by code_simp
  from unknown_opcode_ignored [of "''XYZ X1''" "[''LD X0'']" "[''OUT Y0'']" 1] h e
  show ?thesis by blast
qed

lemma coil_statement_supported:
  "opcode \<in> set coil_opcodes \<Longrightarrow>
     coil_statement opcode coil expr \<noteq> ''(* Unsupported coil opcode '' @ op' @ '' *)''"
proof
  assume op: "opcode \<in> set coil_opcodes"
  assume "coil_statement opcode coil expr = ''(* Unsupported coil opcode '' @ op' @ '' *)''"
  then have "last (coil_statement opcode coil expr) = last (''(* Unsupported coil opcode '' @ op' @ '' *)'')"
    by simp
  with op show False
    by (auto simp: coil_opcodes_def coil_statement_def)
qed

lemma rung_to_expression_coil_opcode:
  "rung_to_expression rung = (expr, Some (opcode, coil)) \<Longrightarrow> opcode \<in> set coil_opcodes"
proof -
  assume a: "rung_to_expression rung = (expr, Some (opcode, coil))"
  then have s: "snd (rung_to_expression rung) = Some (opcode, coil)" by simp
  then have ne: "filter is_coil_instr rung \<noteq> []"
    by (auto simp: rung_to_expression_snd split: if_splits)
  with s have p: "parse_instruction (last (filter is_coil_instr rung)) = (opcode, coil)"
    by (simp add: rung_to_expression_snd)
  have "last (filter is_coil_instr rung) \<in> set (filter is_coil_instr rung)"
    using ne last_in_set by blast
  then have "is_coil_instr (last (filter is_coil_instr rung))" by simp
  with p show ?thesis by (simp add: is_coil_instr_def opcode_of_def)
qed

lemma rung_to_st_shape:
  "(rung_to_st rung n = ''(* Rung '' @ str_int n @ '': no coil found *)'')
   \<or> (\<exists>opc c e. opc \<in> set [''OUT'', ''OUTNOT'', ''SET'', ''RST'']
          \<and> rung_to_st rung n = ''(* Rung '' @ str_int n @ '' *)'' @ [CHR 0x0A] @ coil_statement opc c e
          \<and> (\<forall>op'. coil_statement opc c e \<noteq> ''(* Unsupported coil opcode '' @ op' @ '' *)''))"
proof (cases "snd (rung_to_expression rung)")
  case None
  then show ?thesis by (simp add: rung_to_st_no_coil)
next
  case (Some a)
  obtain opc c where a: "a = (opc, c)" by (cases a)
  obtain e where e: "rung_to_expression rung = (e, Some (opc, c))"
    using Some a by (cases "rung_to_expression rung") simp
  have op: "opc \<in> set coil_opcodes" using e by (rule rung_to_expression_coil_opcode)
  then have 1: "opc \<in> set [''OUT'', ''OUTNOT'', ''SET'', ''RST'']"
    by (auto simp: coil_opcodes_def)
  have 2: "rung_to_st rung n = ''(* Rung '' @ str_int n @ '' *)'' @ [CHR 0x0A] @ coil_statement opc c e"
    using e by (rule rung_to_st_coil)
  have 3: "\<forall>op'. coil_statement opc c e \<noteq> ''(* Unsupported coil opcode '' @ op' @ '' *)''"
    using op coil_statement_supported by blast
  from 1 2 3 show ?thesis by blast
qed

lemma st_blocks_elem:
  "block \<in> set (st_blocks text) \<Longrightarrow> \<exists>rung i. block = rung_to_st rung i"
  by (auto simp: st_blocks_def)

text \<open>
  C9. Whenever \<open>rung_to_expression\<close> returns a coil assignment, its opcode is one of
  \<open>OUT\<close>, \<open>OUTNOT\<close>, \<open>SET\<close>, \<open>RST\<close>. So \<open>rung_to_st\<close>, which gets its coil assignment
  from \<open>rung_to_expression\<close> only, never takes its last branch: the statement line of
  the block comes from one of the four supported forms and is never the comment
  \<open>(* Unsupported coil opcode ... *)\<close>. This holds for every rung, and so every block
  that \<open>convert_text_to_st\<close> puts into its output is either the comment for a rung
  without coil or a header line with a statement line of a supported form.
\<close>

theorem unsupported_coil_unreachable:
  "(rung_to_expression rung = (expr, Some (opcode, coil)) \<longrightarrow>
      opcode \<in> set [''OUT'', ''OUTNOT'', ''SET'', ''RST'']
      \<and> rung_to_st rung n = ''(* Rung '' @ str_int n @ '' *)'' @ [CHR 0x0A] @ coil_statement opcode coil expr
      \<and> coil_statement opcode coil expr \<in> set
           [coil @ '' := '' @ expr @ '';'',
            coil @ '' := NOT ('' @ expr @ '');'',
            ''IF '' @ expr @ '' THEN '' @ coil @ '' := TRUE; END_IF;'',
            ''IF '' @ expr @ '' THEN '' @ coil @ '' := FALSE; END_IF;'']
      \<and> (\<forall>op'. coil_statement opcode coil expr \<noteq> ''(* Unsupported coil opcode '' @ op' @ '' *)''))
   \<and> (\<forall>block\<in>set (st_blocks text).
        (\<exists>i. block = ''(* Rung '' @ str_int i @ '': no coil found *)'')
        \<or> (\<exists>i opc c e. opc \<in> set [''OUT'', ''OUTNOT'', ''SET'', ''RST'']
              \<and> block = ''(* Rung '' @ str_int i @ '' *)'' @ [CHR 0x0A] @ coil_statement opc c e
              \<and> (\<forall>op'. coil_statement opc c e \<noteq> ''(* Unsupported coil opcode '' @ op' @ '' *)'')))"
proof (intro conjI impI ballI)
  assume a: "rung_to_expression rung = (expr, Some (opcode, coil))"
  have op: "opcode \<in> set coil_opcodes" using a by (rule rung_to_expression_coil_opcode)
  then show "opcode \<in> set [''OUT'', ''OUTNOT'', ''SET'', ''RST'']"
    by (auto simp: coil_opcodes_def)
  show "rung_to_st rung n = ''(* Rung '' @ str_int n @ '' *)'' @ [CHR 0x0A] @ coil_statement opcode coil expr"
    using a by (rule rung_to_st_coil)
  show "coil_statement opcode coil expr \<in> set
          [coil @ '' := '' @ expr @ '';'',
           coil @ '' := NOT ('' @ expr @ '');'',
           ''IF '' @ expr @ '' THEN '' @ coil @ '' := TRUE; END_IF;'',
           ''IF '' @ expr @ '' THEN '' @ coil @ '' := FALSE; END_IF;'']"
    using op by (auto simp: coil_opcodes_def coil_statement_def)
  show "\<forall>op'. coil_statement opcode coil expr \<noteq> ''(* Unsupported coil opcode '' @ op' @ '' *)''"
    using op coil_statement_supported by blast
next
  fix block assume "block \<in> set (st_blocks text)"
  then obtain r i where b: "block = rung_to_st r i" using st_blocks_elem by blast
  show "(\<exists>i. block = ''(* Rung '' @ str_int i @ '': no coil found *)'')
        \<or> (\<exists>i opc c e. opc \<in> set [''OUT'', ''OUTNOT'', ''SET'', ''RST'']
              \<and> block = ''(* Rung '' @ str_int i @ '' *)'' @ [CHR 0x0A] @ coil_statement opc c e
              \<and> (\<forall>op'. coil_statement opc c e \<noteq> ''(* Unsupported coil opcode '' @ op' @ '' *)''))"
    using rung_to_st_shape [of r i] unfolding b by blast
qed

theorem unsupported_coil_unreachable_witness:
  "rung_to_expression [''LD X0'', ''rst C5''] = (''X0'', Some (''RST'', ''C5''))
   \<and> ''RST'' \<in> set [''OUT'', ''OUTNOT'', ''SET'', ''RST'']
   \<and> rung_to_st [''LD X0'', ''rst C5''] 3 = ''(* Rung 3 *)'' @ [CHR 0x0A] @ ''IF X0 THEN C5 := FALSE; END_IF;''
   \<and> ''(* Rung 1 *)'' @ [CHR 0x0A] @ ''IF X0 THEN C5 := FALSE; END_IF;''
        \<in> set (st_blocks (''LD X0'' @ [CHR 0x0A] @ ''rst C5''))
   \<and> ((\<exists>i. ''(* Rung 1 *)'' @ [CHR 0x0A] @ ''IF X0 THEN C5 := FALSE; END_IF;''
              = ''(* Rung '' @ str_int i @ '': no coil found *)'')
        \<or> (\<exists>i opc c e. opc \<in> set [''OUT'', ''OUTNOT'', ''SET'', ''RST'']
              \<and> ''(* Rung 1 *)'' @ [CHR 0x0A] @ ''IF X0 THEN C5 := FALSE; END_IF;''
                  = ''(* Rung '' @ str_int i @ '' *)'' @ [CHR 0x0A] @ coil_statement opc c e
              \<and> (\<forall>op'. coil_statement opc c e \<noteq> ''(* Unsupported coil opcode '' @ op' @ '' *)'')))"
proof -
  let ?t = "''LD X0'' @ [CHR 0x0A] @ ''rst C5''"
  have h: "rung_to_expression [''LD X0'', ''rst C5''] = (''X0'', Some (''RST'', ''C5''))" by code_simp
  have s: "str_int 3 = ''3''" by code_simp
  have c: "coil_statement ''RST'' ''C5'' ''X0'' = ''IF X0 THEN C5 := FALSE; END_IF;''" by code_simp
  have m: "''(* Rung 1 *)'' @ [CHR 0x0A] @ ''IF X0 THEN C5 := FALSE; END_IF;'' \<in> set (st_blocks ?t)"
    by code_simp
  note t = unsupported_coil_unreachable [of "[''LD X0'', ''rst C5'']" "''X0''" "''RST''" "''C5''" 3 ?t]
  from t h have 1: "''RST'' \<in> set [''OUT'', ''OUTNOT'', ''SET'', ''RST'']" by blast
  from t h have "rung_to_st [''LD X0'', ''rst C5''] 3
                   = ''(* Rung '' @ str_int 3 @ '' *)'' @ [CHR 0x0A] @ coil_statement ''RST'' ''C5'' ''X0''"
    by blast
  then have 2: "rung_to_st [''LD X0'', ''rst C5''] 3
                  = ''(* Rung 3 *)'' @ [CHR 0x0A] @ ''IF X0 THEN C5 := FALSE; END_IF;''"
    unfolding s c by simp
  from t m have 3: "(\<exists>i. ''(* Rung 1 *)'' @ [CHR 0x0A] @ ''IF X0 THEN C5 := FALSE; END_IF;''
              = ''(* Rung '' @ str_int i @ '': no coil found *)'')
        \<or> (\<exists>i opc c e. opc \<in> set [''OUT'', ''OUTNOT'', ''SET'', ''RST'']
              \<and> ''(* Rung 1 *)'' @ [CHR 0x0A] @ ''IF X0 THEN C5 := FALSE; END_IF;''
                  = ''(* Rung '' @ str_int i @ '' *)'' @ [CHR 0x0A] @ coil_statement opc c e
              \<and> (\<forall>op'. coil_statement opc c e \<noteq> ''(* Unsupported coil opcode '' @ op' @ '' *)''))"
    by blast
  from h 1 2 m 3 show ?thesis by blast
qed

text \<open>
  C10. In a rung with no instruction of the \<open>LD\<close>, \<open>AND\<close> or \<open>OR\<close> family the
  expression is the empty string, and when the rung has a coil instruction the statement
  is emitted all the same, with the empty expression in it. The rung \<open>OUT Y0\<close> gives
  the block \<open>(* Rung 1 *)\<close>, \<open>Y0 := ;\<close>.
\<close>

theorem coil_only_rung:
  "((\<forall>instr\<in>set rung. \<not> is_logic_instr instr) \<longrightarrow>
      fst (rung_to_expression rung) = ''''
      \<and> (filter is_coil_instr rung \<noteq> [] \<longrightarrow>
           parse_instruction (last (filter is_coil_instr rung)) = (opcode, coil) \<longrightarrow>
           rung_to_st rung n = ''(* Rung '' @ str_int n @ '' *)'' @ [CHR 0x0A] @ coil_statement opcode coil ''''))
   \<and> rung_to_st [''OUT Y0''] 1 = ''(* Rung 1 *)'' @ [CHR 0x0A] @ ''Y0 := ;''"
proof (intro impI conjI)
  show "rung_to_st [''OUT Y0''] 1 = ''(* Rung 1 *)'' @ [CHR 0x0A] @ ''Y0 := ;''"
    by code_simp
next
  assume nl: "\<forall>instr\<in>set rung. \<not> is_logic_instr instr"
  show e: "fst (rung_to_expression rung) = ''''"
    using foldl_expr_step_no_logic [OF nl, of "[]" None] by (simp add: rung_to_expression_eq)
  assume ne: "filter is_coil_instr rung \<noteq> []"
    and p: "parse_instruction (last (filter is_coil_instr rung)) = (opcode, coil)"
  have "snd (rung_to_expression rung) = Some (opcode, coil)"
    using ne p by (simp add: rung_to_expression_snd)
  with e have "rung_to_expression rung = ('''', Some (opcode, coil))"
    by (cases "rung_to_expression rung") simp
  then show "rung_to_st rung n = ''(* Rung '' @ str_int n @ '' *)'' @ [CHR 0x0A] @ coil_statement opcode coil ''''"
    by (rule rung_to_st_coil)
qed

theorem coil_only_rung_witness:
  "\<not> is_logic_instr ''OUT Y0''
   \<and> filter is_coil_instr [''OUT Y0''] \<noteq> []
   \<and> fst (rung_to_expression [''OUT Y0'']) = ''''
   \<and> rung_to_st [''OUT Y0''] 1 = ''(* Rung 1 *)'' @ [CHR 0x0A] @ ''Y0 := ;''"
proof -
  have h: "\<forall>instr\<in>set [''OUT Y0'']. \<not> is_logic_instr instr" by code_simp
  have ne: "filter is_coil_instr [''OUT Y0''] \<noteq> []" by code_simp
  have p: "parse_instruction (last (filter is_coil_instr [''OUT Y0''])) = (''OUT'', ''Y0'')" by code_simp
  have s: "str_int 1 = ''1''" by code_simp
  have c: "coil_statement ''OUT'' ''Y0'' '''' = ''Y0 := ;''" by code_simp
  from coil_only_rung [of "[''OUT Y0'']" "''OUT''" "''Y0''" 1] h ne p
  show ?thesis unfolding s c by simp
qed


section \<open>Segmentation\<close>

lemma clean_line_content: "clean_line l \<Longrightarrow> is_content l"
  by (simp add: clean_line_def is_content_def)

text \<open>
  C6. Every rung that \<open>split_rungs\<close> returns is non-empty and made of content lines
  only; a text without content lines has no rungs; and where the lines of the text are
  \<open>xs\<close>, a content line \<open>c1\<close>, a non-empty run \<open>seps\<close> of blank lines and boundary
  markers, a content line \<open>c2\<close>, and \<open>ys\<close>, the rungs of the text are the rungs of
  \<open>xs, c1\<close> followed by the rungs of \<open>c2, ys\<close>, the former ending with a rung whose
  last line is \<open>c1\<close> and the latter starting with a rung whose first line is \<open>c2\<close>:
  one break, whatever the length of the run.
\<close>

theorem split_rungs_segmentation:
  "(\<forall>rung\<in>set (split_rungs text). rung \<noteq> [] \<and> (\<forall>l\<in>set rung. is_content l))
   \<and> ((\<forall>l\<in>set (splitlines text). \<not> is_content l) \<longrightarrow> split_rungs text = [])
   \<and> (splitlines text = xs @ [c1] @ seps @ [c2] @ ys \<longrightarrow> is_content c1 \<longrightarrow> is_content c2 \<longrightarrow>
        seps \<noteq> [] \<longrightarrow> (\<forall>s\<in>set seps. \<not> is_content s) \<longrightarrow>
          split_rungs text = split_rungs_loop (xs @ [c1]) [] [] @ split_rungs_loop (c2 # ys) [] []
          \<and> (\<exists>A r1 r2 B. split_rungs_loop (xs @ [c1]) [] [] = A @ [r1 @ [strip c1]]
                \<and> split_rungs_loop (c2 # ys) [] [] = (strip c2 # r2) # B))"
proof (intro conjI impI ballI)
  fix rung assume r: "rung \<in> set (split_rungs text)"
  from split_rungs_clean [OF r] show "rung \<noteq> []" by simp
  fix l assume "l \<in> set rung"
  with split_rungs_clean [OF r] have "clean_line l" by (simp add: list_all_iff)
  then show "is_content l" by (rule clean_line_content)
next
  assume "\<forall>l\<in>set (splitlines text). \<not> is_content l"
  then show "split_rungs text = []"
    unfolding split_rungs_def by (rule split_rungs_loop_no_content)
next
  assume l: "splitlines text = xs @ [c1] @ seps @ [c2] @ ys"
    and ne: "seps \<noteq> []" and seps: "\<forall>s\<in>set seps. \<not> is_content s"
  from seps have sa: "list_all (\<lambda>s. \<not> is_content s) seps" by (simp add: list_all_iff)
  have "split_rungs_loop ((xs @ [c1]) @ seps @ (c2 # ys)) [] [] =
          split_rungs_loop (xs @ [c1]) [] [] @ split_rungs_loop (c2 # ys) [] []"
    using sa ne by (rule split_rungs_loop_break)
  then show "split_rungs text = split_rungs_loop (xs @ [c1]) [] [] @ split_rungs_loop (c2 # ys) [] []"
    by (simp add: split_rungs_def l del: split_rungs_loop.simps)
next
  assume c1: "is_content c1" and c2: "is_content c2"
  from split_rungs_loop_ends_with [OF c1, of xs "[]" "[]"]
  obtain A r1 where a: "split_rungs_loop (xs @ [c1]) [] [] = A @ [r1 @ [strip c1]]" by blast
  from split_rungs_loop_starts_with [OF c2, of ys]
  obtain r2 B where b: "split_rungs_loop (c2 # ys) [] [] = (strip c2 # r2) # B" by blast
  from a b show "\<exists>A r1 r2 B. split_rungs_loop (xs @ [c1]) [] [] = A @ [r1 @ [strip c1]]
                \<and> split_rungs_loop (c2 # ys) [] [] = (strip c2 # r2) # B" by blast
qed

theorem split_rungs_segmentation_witness:
  "list_all (\<lambda>l. \<not> is_content l) (splitlines ([CHR 0x0A] @ ''   '' @ [CHR 0x0A] @ ''Network 1'' @ [CHR 0x0A]))
   \<and> split_rungs ([CHR 0x0A] @ ''   '' @ [CHR 0x0A] @ ''Network 1'' @ [CHR 0x0A]) = []
   \<and> splitlines (''LD X0'' @ [CHR 0x0A, CHR 0x0A] @ ''Rung 2'' @ [CHR 0x0A] @ ''  '' @ [CHR 0x0A] @ ''OUT Y0'')
       = [] @ [''LD X0''] @ ['''', ''Rung 2'', ''  ''] @ [''OUT Y0''] @ []
   \<and> is_content ''LD X0'' \<and> is_content ''OUT Y0''
   \<and> ['''', ''Rung 2'', ''  ''] \<noteq> []
   \<and> \<not> is_content '''' \<and> \<not> is_content ''Rung 2'' \<and> \<not> is_content ''  ''
   \<and> split_rungs (''LD X0'' @ [CHR 0x0A, CHR 0x0A] @ ''Rung 2'' @ [CHR 0x0A] @ ''  '' @ [CHR 0x0A] @ ''OUT Y0'')
       = [[''LD X0''], [''OUT Y0'']]
   \<and> list_all (\<lambda>rung. rung \<noteq> [])
         (split_rungs (''LD X0'' @ [CHR 0x0A, CHR 0x0A] @ ''Rung 2'' @ [CHR 0x0A] @ ''  '' @ [CHR 0x0A] @ ''OUT Y0''))"
proof -
  let ?e = "[CHR 0x0A] @ ''   '' @ [CHR 0x0A] @ ''Network 1'' @ [CHR 0x0A]"
  let ?t = "''LD X0'' @ [CHR 0x0A, CHR 0x0A] @ ''Rung 2'' @ [CHR 0x0A] @ ''  '' @ [CHR 0x0A] @ ''OUT Y0''"
  have h1: "\<forall>l\<in>set (splitlines ?e). \<not> is_content l" by code_simp
  have h2: "splitlines ?t = [] @ [''LD X0''] @ ['''', ''Rung 2'', ''  ''] @ [''OUT Y0''] @ []"
    by code_simp
  have h3: "is_content ''LD X0''" by code_simp
  have h4: "is_content ''OUT Y0''" by code_simp
  have h5: "['''', ''Rung 2'', ''  ''] \<noteq> ([] :: string list)" by simp
  have h6: "\<forall>s\<in>set ['''', ''Rung 2'', ''  '']. \<not> is_content s" by code_simp
  have v1: "split_rungs_loop ([] @ [''LD X0'']) [] [] = [[''LD X0'']]" by code_simp
  have v2: "split_rungs_loop (''OUT Y0'' # []) [] [] = [[''OUT Y0'']]" by code_simp
  have 1: "split_rungs ?e = []"
    using split_rungs_segmentation [of ?e] h1 by blast
  have "split_rungs ?t = split_rungs_loop ([] @ [''LD X0'']) [] [] @ split_rungs_loop (''OUT Y0'' # []) [] []"
    using split_rungs_segmentation [of ?t "[]" "''LD X0''" "['''', ''Rung 2'', ''  '']" "''OUT Y0''" "[]"]
      h2 h3 h4 h5 h6 by blast
  then have 2: "split_rungs ?t = [[''LD X0''], [''OUT Y0'']]"
    unfolding v1 v2 by simp
  have 3: "\<forall>rung\<in>set (split_rungs ?t). rung \<noteq> []"
    using split_rungs_segmentation [of ?t] by blast
  from h1 have h1': "list_all (\<lambda>l. \<not> is_content l) (splitlines ?e)"
    by (simp only: list_all_iff)
  from h6 have h6': "\<not> is_content '''' \<and> \<not> is_content ''Rung 2'' \<and> \<not> is_content ''  ''"
    by simp
  from 3 have r3: "list_all (\<lambda>rung. rung \<noteq> []) (split_rungs ?t)"
    by (simp only: list_all_iff)
  from h1' 1 h2 h3 h4 h5 h6' 2 r3 show ?thesis by blast
qed

text \<open>
  C7. A rung that \<open>split_rungs\<close> returned for some text is returned again, alone, when
  \<open>split_rungs\<close> is given a boundary marker line, a newline and the lines of the rung
  joined by newlines.
\<close>

theorem split_rungs_round_trip:
  assumes "rung \<in> set (split_rungs text)"
    and "is_boundary (strip marker)"
    and "\<forall>c\<in>set marker. \<not> is_linebreak c"
  shows "split_rungs (marker @ [CHR 0x0A] @ join [CHR 0x0A] rung) = [rung]"
proof -
  from split_rungs_clean [OF assms(1)]
  have ne: "rung \<noteq> []" and cl: "list_all clean_line rung" by simp_all
  then obtain x xs where r: "rung = x # xs" by (cases rung) simp_all
  have "\<forall>l\<in>set (x # xs). l \<noteq> [] \<and> (\<forall>c\<in>set l. \<not> is_linebreak c)"
    using cl r by (simp add: list_all_iff clean_line_def)
  then have j: "splitlines_from [] (join [CHR 0x0A] rung) = rung"
    unfolding r by (rule splitlines_from_join)
  have "splitlines_from [] (marker @ CHR 0x0A # join [CHR 0x0A] rung) =
          ([] @ marker) # splitlines_from [] (join [CHR 0x0A] rung)"
    using assms(3) by (rule splitlines_from_line)
  with j have s: "splitlines (marker @ [CHR 0x0A] @ join [CHR 0x0A] rung) = marker # rung"
    by (simp add: splitlines_def)
  have m: "\<not> is_content marker" using assms(2) by (simp add: is_content_def)
  have "split_rungs_loop (marker # rung) [] [] = split_rungs_loop rung [] []"
    by (simp add: split_rungs_loop_skip [OF m] del: split_rungs_loop.simps)
  also have "\<dots> = [] @ [[] @ rung]"
    using cl ne by (intro split_rungs_loop_clean) simp_all
  finally have "split_rungs_loop (marker # rung) [] [] = [rung]" by simp
  then show ?thesis unfolding split_rungs_def s .
qed

theorem split_rungs_round_trip_witness:
  "[''LD X0'', ''out Y0''] \<in> set (split_rungs (''Rung 1'' @ [CHR 0x0A] @ ''LD X0'' @ [CHR 0x0A] @ '' out Y0 ''
                                      @ [CHR 0x0A, CHR 0x0A] @ ''LD X1''))
   \<and> is_boundary (strip ''Network 7'')
   \<and> list_all (\<lambda>c. \<not> is_linebreak c) ''Network 7''
   \<and> split_rungs (''Network 7'' @ [CHR 0x0A] @ join [CHR 0x0A] [''LD X0'', ''out Y0''])
       = [[''LD X0'', ''out Y0'']]"
proof -
  have h1: "[''LD X0'', ''out Y0''] \<in> set (split_rungs (''Rung 1'' @ [CHR 0x0A] @ ''LD X0'' @ [CHR 0x0A] @ '' out Y0 ''
                                      @ [CHR 0x0A, CHR 0x0A] @ ''LD X1''))"
    by code_simp
  have h2: "is_boundary (strip ''Network 7'')" by code_simp
  have h3: "\<forall>c\<in>set ''Network 7''. \<not> is_linebreak c" by code_simp
  from h3 have h3': "list_all (\<lambda>c. \<not> is_linebreak c) ''Network 7''"
    by (simp only: list_all_iff)
  from split_rungs_round_trip [OF h1 h2 h3] h1 h2 h3' show ?thesis by blast
qed

section \<open>Document translation\<close>

lemma convert_loop_eq:
  "convert_loop rungs (int k) acc =
     acc @ concat (map (\<lambda>b. [b, '''']) (map (\<lambda>(i, rung). rung_to_st rung (int i)) (enumerate k rungs)))"
proof (induction rungs arbitrary: k acc)
  case Nil
  show ?case by simp
next
  case (Cons rung rungs)
  have e: "int k + 1 = int (Suc k)" by simp
  show ?case unfolding convert_loop.simps e Cons.IH by simp
qed

lemma join_blocks:
  "join [CHR 0x0A] (concat (map (\<lambda>b. [b, '''']) bs)) =
     (if bs = [] then [] else join [CHR 0x0A, CHR 0x0A] bs @ [CHR 0x0A])"
proof (induction bs)
  case Nil
  show ?case by simp
next
  case (Cons b bs)
  show ?case
  proof (cases bs)
    case Nil
    then show ?thesis by simp
  next
    case (Cons b' bs')
    with Cons.IH show ?thesis by simp
  qed
qed

lemma convert_text_to_st_blocks:
  "convert_text_to_st text =
     (if st_blocks text = [] then [] else join [CHR 0x0A, CHR 0x0A] (st_blocks text) @ [CHR 0x0A])"
proof -
  have "convert_loop (split_rungs text) (int 1) [] = concat (map (\<lambda>b. [b, '''']) (st_blocks text))"
    unfolding convert_loop_eq st_blocks_def by simp
  then have "convert_text_to_st text = join [CHR 0x0A] (concat (map (\<lambda>b. [b, '''']) (st_blocks text)))"
    by (simp add: convert_text_to_st_def)
  then show ?thesis by (simp only: join_blocks)
qed

text \<open>
  C1. Scenario 1, as the code runs it: the three lines \<open>LD X0\<close>, \<open>AND X1\<close>, \<open>OUT Y0\<close>
  are one rung, whose block is the two-line text \<open>(* Rung 1 *)\<close>, \<open>Y0 := X0 AND X1;\<close>;
  \<open>convert_text_to_st\<close> returns that block followed by one newline character.
\<close>

theorem scenario_1:
  "split_rungs (''LD X0'' @ [CHR 0x0A] @ ''AND X1'' @ [CHR 0x0A] @ ''OUT Y0'')
     = [[''LD X0'', ''AND X1'', ''OUT Y0'']]
   \<and> rung_to_st [''LD X0'', ''AND X1'', ''OUT Y0''] 1
     = ''(* Rung 1 *)'' @ [CHR 0x0A] @ ''Y0 := X0 AND X1;''
   \<and> convert_text_to_st (''LD X0'' @ [CHR 0x0A] @ ''AND X1'' @ [CHR 0x0A] @ ''OUT Y0'')
     = ''(* Rung 1 *)'' @ [CHR 0x0A] @ ''Y0 := X0 AND X1;'' @ [CHR 0x0A]"
  by code_simp

theorem scenario_1_counterexample:
  "convert_text_to_st (''LD X0'' @ [CHR 0x0A] @ ''AND X1'' @ [CHR 0x0A] @ ''OUT Y0'')
     \<noteq> ''(* Rung 1 *)'' @ [CHR 0x0A] @ ''Y0 := X0 AND X1;''"
  by code_simp

text \<open>
  C2. The output of \<open>convert_text_to_st\<close> is the blocks of the rungs, in rung order,
  with one blank line between consecutive blocks, and one newline character after the
  last block; when the text has no rung, and so when it has no content line, the output
  is the empty string.
\<close>

theorem convert_text_to_st_output:
  "convert_text_to_st text =
     (if st_blocks text = [] then []
      else join [CHR 0x0A, CHR 0x0A] (st_blocks text) @ [CHR 0x0A])
   \<and> ((\<forall>l\<in>set (splitlines text). \<not> is_content l) \<longrightarrow> convert_text_to_st text = [])"
proof
  show "convert_text_to_st text =
     (if st_blocks text = [] then []
      else join [CHR 0x0A, CHR 0x0A] (st_blocks text) @ [CHR 0x0A])"
    by (rule convert_text_to_st_blocks)
  show "(\<forall>l\<in>set (splitlines text). \<not> is_content l) \<longrightarrow> convert_text_to_st text = []"
  proof
    assume "\<forall>l\<in>set (splitlines text). \<not> is_content l"
    then have "split_rungs text = []"
      by (simp add: split_rungs_def split_rungs_loop_no_content)
    then show "convert_text_to_st text = []"
      by (simp add: convert_text_to_st_def)
  qed
qed

theorem convert_text_to_st_output_witness:
  "list_all (\<lambda>l. \<not> is_content l) (splitlines ([CHR 0x0A] @ ''  '' @ [CHR 0x0A] @ ''Rung 1'' @ [CHR 0x0A]))
   \<and> convert_text_to_st ([CHR 0x0A] @ ''  '' @ [CHR 0x0A] @ ''Rung 1'' @ [CHR 0x0A]) = []
   \<and> st_blocks (''LD X0'' @ [CHR 0x0A] @ ''OUT Y0'' @ [CHR 0x0A] @ ''Rung 2'' @ [CHR 0x0A] @ ''LD X1''
                  @ [CHR 0x0A] @ ''OUTNOT Y1'')
       = [''(* Rung 1 *)'' @ [CHR 0x0A] @ ''Y0 := X0;'', ''(* Rung 2 *)'' @ [CHR 0x0A] @ ''Y1 := NOT (X1);'']
   \<and> convert_text_to_st (''LD X0'' @ [CHR 0x0A] @ ''OUT Y0'' @ [CHR 0x0A] @ ''Rung 2'' @ [CHR 0x0A] @ ''LD X1''
                  @ [CHR 0x0A] @ ''OUTNOT Y1'')
       = ''(* Rung 1 *)'' @ [CHR 0x0A] @ ''Y0 := X0;'' @ [CHR 0x0A, CHR 0x0A]
         @ ''(* Rung 2 *)'' @ [CHR 0x0A] @ ''Y1 := NOT (X1);'' @ [CHR 0x0A]"
proof -
  let ?e = "[CHR 0x0A] @ ''  '' @ [CHR 0x0A] @ ''Rung 1'' @ [CHR 0x0A]"
  let ?t = "''LD X0'' @ [CHR 0x0A] @ ''OUT Y0'' @ [CHR 0x0A] @ ''Rung 2'' @ [CHR 0x0A] @ ''LD X1''
                  @ [CHR 0x0A] @ ''OUTNOT Y1''"
  have h: "\<forall>l\<in>set (splitlines ?e). \<not> is_content l" by code_simp
  have b: "st_blocks ?t
       = [''(* Rung 1 *)'' @ [CHR 0x0A] @ ''Y0 := X0;'', ''(* Rung 2 *)'' @ [CHR 0x0A] @ ''Y1 := NOT (X1);'']"
    by code_simp
  have 1: "convert_text_to_st ?e = []"
    using convert_text_to_st_output [of ?e] h by blast
  have 2: "convert_text_to_st ?t =
     (if st_blocks ?t = [] then []
      else join [CHR 0x0A, CHR 0x0A] (st_blocks ?t) @ [CHR 0x0A])"
    using convert_text_to_st_output [of ?t] by blast
  from h have h': "list_all (\<lambda>l. \<not> is_content l) (splitlines ?e)"
    by (simp only: list_all_iff)
  from h' 1 b 2 show ?thesis by simp
qed

theorem convert_text_to_st_output_counterexample:
  "join [CHR 0x0A, CHR 0x0A]
     (st_blocks (''LD X0'' @ [CHR 0x0A] @ ''OUT Y0'' @ [CHR 0x0A] @ ''Rung 2'' @ [CHR 0x0A] @ ''LD X1''
                  @ [CHR 0x0A] @ ''OUTNOT Y1''))
     = ''(* Rung 1 *)'' @ [CHR 0x0A] @ ''Y0 := X0;'' @ [CHR 0x0A, CHR 0x0A]
         @ ''(* Rung 2 *)'' @ [CHR 0x0A] @ ''Y1 := NOT (X1);''
   \<and> convert_text_to_st (''LD X0'' @ [CHR 0x0A] @ ''OUT Y0'' @ [CHR 0x0A] @ ''Rung 2'' @ [CHR 0x0A] @ ''LD X1''
                  @ [CHR 0x0A] @ ''OUTNOT Y1'')
     \<noteq> join [CHR 0x0A, CHR 0x0A]
          (st_blocks (''LD X0'' @ [CHR 0x0A] @ ''OUT Y0'' @ [CHR 0x0A] @ ''Rung 2'' @ [CHR 0x0A] @ ''LD X1''
                  @ [CHR 0x0A] @ ''OUTNOT Y1''))"
  by code_simp

text \<open>
  C8. For every text \<open>convert_text_to_st\<close> returns a string: run with the list
  subscripts of \<open>_parse_instruction\<close> raising as in Python, the engine ends with a
  value, never with an exception, and so does the translation of any single rung,
  whatever its lines are; the value is the one the definitions above compute, in which
  every rung of the segmentation has its block.
\<close>

theorem convert_text_to_st_returns:
  "convert_text_to_st_exc text = Inr (convert_text_to_st text)
   \<and> rung_to_st_exc rung n = Inr (rung_to_st rung n)
   \<and> length (st_blocks text) = length (split_rungs text)"
  by (simp add: convert_text_to_st_exc_def convert_text_to_st_def convert_loop_exc_eq
        rung_to_st_exc_eq st_blocks_def)

text \<open>
  A text of three malformed rungs (an \<open>AND\<close> before any \<open>LD\<close>, an unknown opcode alone,
  a rung without coil) is translated to the end.
\<close>

lemma convert_text_to_st_malformed_example:
  "convert_text_to_st_exc (''AND X1'' @ [CHR 0x0A] @ ''OUT Y0'' @ [CHR 0x0A, CHR 0x0A] @ ''FOO''
                             @ [CHR 0x0A, CHR 0x0A] @ ''LD X2'')
     = Inr (''(* Rung 1 *)'' @ [CHR 0x0A] @ ''Y0 := AND X1;'' @ [CHR 0x0A, CHR 0x0A]
            @ ''(* Rung 2: no coil found *)'' @ [CHR 0x0A, CHR 0x0A]
            @ ''(* Rung 3: no coil found *)'' @ [CHR 0x0A])"
  by code_simp

end
